theory Spec2Isabelle
  imports Main "HOL-Library.Multiset"
begin

section \<open>Scores: Python numbers with the two float infinities\<close>

text \<open>
  The engine computes with Python integers (material sums, the draw score \<open>0\<close>) and
  with \<open>float('-inf')\<close> and \<open>float('inf')\<close>. Python compares an integer with an
  infinity exactly, so the values form the integers extended by a least and a greatest
  element.
\<close>

datatype score = NegInf | Fin int | PosInf

fun score_le :: "score \<Rightarrow> score \<Rightarrow> bool" where
  "score_le NegInf _ = True"
| "score_le (Fin a) (Fin b) = (a \<le> b)"
| "score_le (Fin _) PosInf = True"
| "score_le PosInf PosInf = True"
| "score_le _ _ = False"

instantiation score :: linorder
begin

definition less_eq_score :: "score \<Rightarrow> score \<Rightarrow> bool" where
  "less_eq_score x y = score_le x y"

definition less_score :: "score \<Rightarrow> score \<Rightarrow> bool" where
  "less_score x y = (score_le x y \<and> \<not> score_le y x)"

instance
proof
  fix x y z :: score
  show "(x < y) = (x \<le> y \<and> \<not> y \<le> x)"
    by (simp add: less_eq_score_def less_score_def)
  show "x \<le> x"
    by (cases x) (simp_all add: less_eq_score_def)
  show "x \<le> y \<Longrightarrow> y \<le> z \<Longrightarrow> x \<le> z"
    by (cases x; cases y; cases z) (simp_all add: less_eq_score_def)
  show "x \<le> y \<Longrightarrow> y \<le> x \<Longrightarrow> x = y"
    by (cases x; cases y) (simp_all add: less_eq_score_def)
  show "x \<le> y \<or> y \<le> x"
    by (cases x; cases y) (auto simp add: less_eq_score_def)
qed

end

section \<open>The data of the rules engine\<close>

text \<open>
  The source imports the package \<open>chess\<close> (python-chess), which is not part of the
  repository. Its piece types and colours are enumerations, a piece is a pair of both,
  a move is a triple of origin, destination and optional promotion piece, and squares
  are the numbers \<open>0..63\<close> (\<open>chess.SQUARES\<close>).
\<close>

datatype piece_type = PAWN | KNIGHT | BISHOP | ROOK | QUEEN | KING

datatype color = WHITE | BLACK

record piece =
  piece_type :: piece_type
  color :: color

record move =
  from_square :: nat
  to_square :: nat
  promotion :: "piece_type option"

text \<open>
  The board object is opaque to the engine: it is used only through the methods below,
  so the board type is a parameter \<open>'b\<close> and the methods are a record of functions.
  A method call on a mutable object may change the object, so each method takes the
  board and returns its result together with the board after the call; \<open>push\<close> and
  \<open>pop\<close> return only the board (the engine ignores the move \<open>pop\<close> returns).
  \<open>turn\<close> is an attribute read.
\<close>

record 'b board_api =
  turn :: "'b \<Rightarrow> color"
  is_checkmate :: "'b \<Rightarrow> bool \<times> 'b"
  is_stalemate :: "'b \<Rightarrow> bool \<times> 'b"
  is_insufficient_material :: "'b \<Rightarrow> bool \<times> 'b"
  is_game_over :: "'b \<Rightarrow> bool \<times> 'b"
  piece_at :: "nat \<Rightarrow> 'b \<Rightarrow> piece option \<times> 'b"
  legal_moves :: "'b \<Rightarrow> move list \<times> 'b"
  is_capture :: "move \<Rightarrow> 'b \<Rightarrow> bool \<times> 'b"
  gives_check :: "move \<Rightarrow> 'b \<Rightarrow> bool \<times> 'b"
  fen :: "'b \<Rightarrow> string \<times> 'b"
  push :: "move \<Rightarrow> 'b \<Rightarrow> 'b"
  pop :: "'b \<Rightarrow> 'b"

section \<open>The engine\<close>

subsection \<open>Piece values and the position evaluator\<close>

fun piece_values :: "piece_type \<Rightarrow> int" where
  "piece_values PAWN = 1"
| "piece_values KNIGHT = 3"
| "piece_values BISHOP = 3"
| "piece_values ROOK = 5"
| "piece_values QUEEN = 9"
| "piece_values KING = 0"

definition SQUARES :: "nat list" where
  "SQUARES = [0..<64]"

text \<open>The loop \<open>for sq in chess.SQUARES\<close> of \<open>evaluate_board\<close>, with its accumulator.\<close>

fun material_loop :: "'b board_api \<Rightarrow> nat list \<Rightarrow> int \<Rightarrow> 'b \<Rightarrow> int \<times> 'b" where
  "material_loop L [] score b = (score, b)"
| "material_loop L (sq # sqs) score b =
     (case piece_at L sq b of
        (None, b1) \<Rightarrow> material_loop L sqs score b1
      | (Some p, b1) \<Rightarrow>
          (let val = piece_values (piece_type p)
           in material_loop L sqs (score + (if color p = WHITE then val else - val)) b1))"

definition evaluate_board :: "'b board_api \<Rightarrow> 'b \<Rightarrow> score \<times> 'b" where
  "evaluate_board L b =
     (case is_checkmate L b of
        (True, b1) \<Rightarrow> (if turn L b1 = WHITE then NegInf else PosInf, b1)
      | (False, b1) \<Rightarrow>
          (case is_stalemate L b1 of
             (True, b2) \<Rightarrow> (Fin 0, b2)
           | (False, b2) \<Rightarrow>
               (case is_insufficient_material L b2 of
                  (True, b3) \<Rightarrow> (Fin 0, b3)
                | (False, b3) \<Rightarrow>
                    (case material_loop L SQUARES 0 b3 of
                       (score, b4) \<Rightarrow> (Fin score, b4)))))"

subsection \<open>The move orderer\<close>

definition score_move :: "'b board_api \<Rightarrow> move \<Rightarrow> 'b \<Rightarrow> int \<times> 'b" where
  "score_move L mv b =
     (case is_capture L mv b of (cap, b1) \<Rightarrow>
      (case (if cap then
               (case piece_at L (to_square mv) b1 of (victim, b2) \<Rightarrow>
                (case piece_at L (from_square mv) b2 of (attacker, b3) \<Rightarrow>
                   (let victim_val = (case victim of Some p \<Rightarrow> piece_values (piece_type p) | None \<Rightarrow> 0);
                        attacker_val = (case attacker of Some p \<Rightarrow> piece_values (piece_type p) | None \<Rightarrow> 0)
                    in (10 * victim_val - attacker_val, b3))))
             else (0, b1)) of (score1, b4) \<Rightarrow>
       (let score2 = (if promotion mv \<noteq> None then score1 + 8 else score1)
        in (case gives_check L mv b4 of (chk, b5) \<Rightarrow>
              (if chk then score2 + 5 else score2, b5)))))"

text \<open>\<open>sorted\<close> first collects the moves, then calls the key function on each in turn.\<close>

fun score_all :: "'b board_api \<Rightarrow> move list \<Rightarrow> 'b \<Rightarrow> int list \<times> 'b" where
  "score_all L [] b = ([], b)"
| "score_all L (mv # mvs) b =
     (case score_move L mv b of (k, b1) \<Rightarrow>
      (case score_all L mvs b1 of (ks, b2) \<Rightarrow> (k # ks, b2)))"

text \<open>
  \<open>sorted(..., key=score_move, reverse=True)\<close> is stable: moves with equal keys keep
  their order. Sorting stably by the negated key gives the same list.
\<close>

definition order_moves :: "'b board_api \<Rightarrow> 'b \<Rightarrow> move list \<times> 'b" where
  "order_moves L b =
     (case legal_moves L b of (mvs, b1) \<Rightarrow>
      (case score_all L mvs b1 of (ks, b2) \<Rightarrow>
         (map snd (sort_key (\<lambda>(k, mv). - k) (zip ks mvs)), b2)))"

subsection \<open>The transposition table and the search\<close>

type_synonym key = "string \<times> int \<times> bool"

type_synonym table = "key \<rightharpoonup> score"

text \<open>
  A Python call that needs more frames than the interpreter's recursion limit raises
  \<open>RecursionError\<close>. The source has no \<open>try\<close>, so the exception leaves every
  enclosing call at once, with the board and the table as they are at that moment.
  A search therefore yields an error or a value, together with the board and the table.
\<close>

datatype error = RecursionError

type_synonym 'b search = "'b \<Rightarrow> score \<Rightarrow> score \<Rightarrow> table \<Rightarrow> (error + score) \<times> 'b \<times> table"

text \<open>
  The two loops of \<open>minimax\<close>. \<open>rec\<close> is the recursive call
  \<open>minimax(board, depth-1, alpha, beta, ...)\<close> on the board after \<open>push\<close>.
\<close>

fun max_loop :: "'b board_api \<Rightarrow> 'b search \<Rightarrow> move list \<Rightarrow> score \<Rightarrow> score \<Rightarrow> score \<Rightarrow> 'b \<Rightarrow> table
    \<Rightarrow> (error + score) \<times> 'b \<times> table" where
  "max_loop L rec [] max_eval alpha beta b T = (Inr max_eval, b, T)"
| "max_loop L rec (mv # mvs) max_eval alpha beta b T =
     (case rec (push L mv b) alpha beta T of
        (Inl e, b1, T1) \<Rightarrow> (Inl e, b1, T1)
      | (Inr val, b1, T1) \<Rightarrow>
          (let b2 = pop L b1;
               max_eval' = max max_eval val;
               alpha' = max alpha val
           in if beta \<le> alpha' then (Inr max_eval', b2, T1)
              else max_loop L rec mvs max_eval' alpha' beta b2 T1))"

fun min_loop :: "'b board_api \<Rightarrow> 'b search \<Rightarrow> move list \<Rightarrow> score \<Rightarrow> score \<Rightarrow> score \<Rightarrow> 'b \<Rightarrow> table
    \<Rightarrow> (error + score) \<times> 'b \<times> table" where
  "min_loop L rec [] min_eval alpha beta b T = (Inr min_eval, b, T)"
| "min_loop L rec (mv # mvs) min_eval alpha beta b T =
     (case rec (push L mv b) alpha beta T of
        (Inl e, b1, T1) \<Rightarrow> (Inl e, b1, T1)
      | (Inr val, b1, T1) \<Rightarrow>
          (let b2 = pop L b1;
               min_eval' = min min_eval val;
               beta' = min beta val
           in if beta' \<le> alpha then (Inr min_eval', b2, T1)
              else min_loop L rec mvs min_eval' alpha beta' b2 T1))"

text \<open>
  \<open>minimax L n b depth alpha beta maximizing_player T\<close>: the call of the source on
  board \<open>b\<close> and table \<open>T\<close>, when the recursion limit leaves room for \<open>n\<close> nested
  calls of \<open>minimax\<close>, this one included. The calls into the rules engine are taken
  to fit wherever a call of \<open>minimax\<close> does, so the exception arises where a call of
  \<open>minimax\<close> finds no room. \<open>depth\<close> is a Python integer: nothing in the source keeps
  it from being negative.
\<close>

fun minimax :: "'b board_api \<Rightarrow> nat \<Rightarrow> 'b \<Rightarrow> int \<Rightarrow> score \<Rightarrow> score \<Rightarrow> bool \<Rightarrow> table
    \<Rightarrow> (error + score) \<times> 'b \<times> table" where
  "minimax L 0 b depth alpha beta maximizing_player T = (Inl RecursionError, b, T)"
| "minimax L (Suc n) b depth alpha beta maximizing_player T =
     (case fen L b of (f, b1) \<Rightarrow>
      (let key = (f, depth, maximizing_player) in
       case T key of
         Some v \<Rightarrow> (Inr v, b1, T)
       | None \<Rightarrow>
          (case (if depth = 0 then (True, b1) else is_game_over L b1) of
             (True, b2) \<Rightarrow>
               (case evaluate_board L b2 of (val, b3) \<Rightarrow> (Inr val, b3, T(key \<mapsto> val)))
           | (False, b2) \<Rightarrow>
               (case order_moves L b2 of (mvs, b3) \<Rightarrow>
                  (if maximizing_player then
                     (case max_loop L (\<lambda>b' a' be' T'. minimax L n b' (depth - 1) a' be' False T')
                             mvs NegInf alpha beta b3 T of
                        (Inl e, b4, T4) \<Rightarrow> (Inl e, b4, T4)
                      | (Inr max_eval, b4, T4) \<Rightarrow> (Inr max_eval, b4, T4(key \<mapsto> max_eval)))
                   else
                     (case min_loop L (\<lambda>b' a' be' T'. minimax L n b' (depth - 1) a' be' True T')
                             mvs PosInf alpha beta b3 T of
                        (Inl e, b4, T4) \<Rightarrow> (Inl e, b4, T4)
                      | (Inr min_eval, b4, T4) \<Rightarrow> (Inr min_eval, b4, T4(key \<mapsto> min_eval))))))))"

subsection \<open>The move selector\<close>

text \<open>The loop of \<open>find_best_move\<close>; its state is \<open>best_move\<close>, \<open>best_val\<close> and \<open>beta\<close>.\<close>

fun root_loop :: "'b board_api \<Rightarrow> 'b search \<Rightarrow> move list \<Rightarrow> move option \<Rightarrow> score \<Rightarrow> score \<Rightarrow> score \<Rightarrow> 'b \<Rightarrow> table
    \<Rightarrow> (error + move option \<times> score) \<times> 'b \<times> table" where
  "root_loop L rec [] best_move best_val alpha beta b T = (Inr (best_move, best_val), b, T)"
| "root_loop L rec (mv # mvs) best_move best_val alpha beta b T =
     (case rec (push L mv b) alpha beta T of
        (Inl e, b1, T1) \<Rightarrow> (Inl e, b1, T1)
      | (Inr val, b1, T1) \<Rightarrow>
          (let b2 = pop L b1
           in if val < best_val
              then root_loop L rec mvs (Some mv) val alpha (min beta val) b2 T1
              else root_loop L rec mvs best_move best_val alpha beta b2 T1))"

definition find_best_move_loop :: "'b board_api \<Rightarrow> nat \<Rightarrow> 'b \<Rightarrow> int \<Rightarrow> table
    \<Rightarrow> (error + move option \<times> score) \<times> 'b \<times> table" where
  "find_best_move_loop L n b depth T =
     (case order_moves L b of (mvs, b1) \<Rightarrow>
        root_loop L (\<lambda>b' a' be' T'. minimax L n b' (depth - 1) a' be' True T')
          mvs None PosInf NegInf PosInf b1 T)"

definition find_best_move :: "'b board_api \<Rightarrow> nat \<Rightarrow> 'b \<Rightarrow> int \<Rightarrow> table
    \<Rightarrow> (error + move option) \<times> 'b \<times> table" where
  "find_best_move L n b depth T =
     (case find_best_move_loop L n b depth T of
        (Inl e, b1, T1) \<Rightarrow> (Inl e, b1, T1)
      | (Inr (best_move, best_val), b1, T1) \<Rightarrow> (Inr best_move, b1, T1))"

section \<open>What the engine assumes of the rules engine\<close>

text \<open>
  The queries of the rules engine leave the position as it is, and \<open>pop\<close> undoes
  \<open>push\<close>. The engine relies on both; they are hypotheses of the theorems below.
\<close>

definition read_only :: "'b board_api \<Rightarrow> bool" where
  "read_only L =
     ((\<forall>b. snd (is_checkmate L b) = b) \<and> (\<forall>b. snd (is_stalemate L b) = b) \<and>
      (\<forall>b. snd (is_insufficient_material L b) = b) \<and> (\<forall>b. snd (is_game_over L b) = b) \<and>
      (\<forall>sq b. snd (piece_at L sq b) = b) \<and> (\<forall>b. snd (legal_moves L b) = b) \<and>
      (\<forall>mv b. snd (is_capture L mv b) = b) \<and> (\<forall>mv b. snd (gives_check L mv b) = b) \<and>
      (\<forall>b. snd (fen L b) = b))"

definition undo_push :: "'b board_api \<Rightarrow> bool" where
  "undo_push L = (\<forall>mv b. pop L (push L mv b) = b)"



section \<open>The specification's words\<close>

text \<open>
  The material balance as the specification states it: the sum over all squares of the
  value of the piece standing there (pawn 1, knight 3, bishop 3, rook 5, queen 9,
  king 0), counted positive for White and negative for Black.
\<close>

fun stated_value :: "piece_type \<Rightarrow> int" where
  "stated_value t =
     (if t = PAWN then 1 else if t = KNIGHT then 3 else if t = BISHOP then 3
      else if t = ROOK then 5 else if t = QUEEN then 9 else 0)"

definition square_value :: "'b board_api \<Rightarrow> 'b \<Rightarrow> nat \<Rightarrow> int" where
  "square_value L b sq =
     (case fst (piece_at L sq b) of
        None \<Rightarrow> 0
      | Some p \<Rightarrow> (if color p = WHITE then stated_value (piece_type p)
                  else - stated_value (piece_type p)))"

definition material_balance :: "'b board_api \<Rightarrow> 'b \<Rightarrow> int" where
  "material_balance L b = (\<Sum>sq\<leftarrow>[0..<64]. square_value L b sq)"

definition stated_evaluation :: "'b board_api \<Rightarrow> 'b \<Rightarrow> score" where
  "stated_evaluation L b =
     (if fst (is_checkmate L b) then (if turn L b = WHITE then NegInf else PosInf)
      else if fst (is_stalemate L b) \<or> fst (is_insufficient_material L b) then Fin 0
      else Fin (material_balance L b))"

text \<open>The value of the piece on a square, \<open>0\<close> for an empty square.\<close>

definition value_at :: "'b board_api \<Rightarrow> 'b \<Rightarrow> nat \<Rightarrow> int" where
  "value_at L b sq = (case fst (piece_at L sq b) of None \<Rightarrow> 0 | Some p \<Rightarrow> stated_value (piece_type p))"

text \<open>
  The material the side not to move has on the board, and the value of the piece a move
  captures: what that side loses by the move.
\<close>

definition material_of :: "'b board_api \<Rightarrow> color \<Rightarrow> 'b \<Rightarrow> int" where
  "material_of L c b =
     (\<Sum>sq\<leftarrow>[0..<64]. case fst (piece_at L sq b) of
          None \<Rightarrow> 0
        | Some p \<Rightarrow> (if color p = c then stated_value (piece_type p) else 0))"

definition opponent :: "color \<Rightarrow> color" where
  "opponent c = (if c = WHITE then BLACK else WHITE)"

definition captured_value :: "'b board_api \<Rightarrow> move \<Rightarrow> 'b \<Rightarrow> int" where
  "captured_value L mv b =
     material_of L (opponent (turn L b)) b - material_of L (opponent (turn L b)) (push L mv b)"

text \<open>The heuristic with the capture bonus as the specification words it.\<close>

definition stated_heuristic :: "'b board_api \<Rightarrow> 'b \<Rightarrow> move \<Rightarrow> int" where
  "stated_heuristic L b mv =
     (if fst (is_capture L mv b) then 10 * captured_value L mv b - value_at L b (from_square mv) else 0)
     + (if promotion mv \<noteq> None then 8 else 0)
     + (if fst (gives_check L mv b) then 5 else 0)"

text \<open>The heuristic with the capture bonus read off the two squares of the move.\<close>

definition heuristic :: "'b board_api \<Rightarrow> 'b \<Rightarrow> move \<Rightarrow> int" where
  "heuristic L b mv =
     (if fst (is_capture L mv b)
      then 10 * value_at L b (to_square mv) - value_at L b (from_square mv) else 0)
     + (if promotion mv \<noteq> None then 8 else 0)
     + (if fst (gives_check L mv b) then 5 else 0)"

text \<open>The legal moves, sorted stably by descending heuristic.\<close>

definition ordered :: "'b board_api \<Rightarrow> 'b \<Rightarrow> move list" where
  "ordered L b =
     map snd (sort_key (\<lambda>(k, m). - k)
       (zip (map (heuristic L b) (fst (legal_moves L b))) (fst (legal_moves L b))))"

text \<open>
  The unpruned, uncached minimax of the specification's pruning-soundness property, over
  the same move ordering, and the root choice made from its values by the selector's
  rule (the first move whose value is strictly below every earlier one).
\<close>

fun full_minimax :: "'b board_api \<Rightarrow> nat \<Rightarrow> 'b \<Rightarrow> bool \<Rightarrow> score" where
  "full_minimax L 0 b mx = fst (evaluate_board L b)"
| "full_minimax L (Suc d) b mx =
     (if fst (is_game_over L b) then fst (evaluate_board L b)
      else if mx then
        fold (\<lambda>mv acc. max acc (full_minimax L d (push L mv b) False)) (fst (order_moves L b)) NegInf
      else
        fold (\<lambda>mv acc. min acc (full_minimax L d (push L mv b) True)) (fst (order_moves L b)) PosInf)"

fun first_least :: "(move \<times> score) list \<Rightarrow> move option \<Rightarrow> score \<Rightarrow> move option" where
  "first_least [] best_move best_val = best_move"
| "first_least ((mv, v) # rest) best_move best_val =
     (if v < best_val then first_least rest (Some mv) v else first_least rest best_move best_val)"

definition full_best_move :: "'b board_api \<Rightarrow> nat \<Rightarrow> 'b \<Rightarrow> move option" where
  "full_best_move L depth b =
     first_least (map (\<lambda>mv. (mv, full_minimax L (depth - 1) (push L mv b) True)) (fst (order_moves L b)))
       None PosInf"

section \<open>Small rules engines\<close>

text \<open>
  A rules engine given by tables: the positions are named by strings, each has its
  legal moves in generation order, a successor for each move, its flags and its material
  (so many white pawns on the first squares if positive, black pawns if negative).
  The board is the current position and the stack of the positions before it, as
  python-chess keeps them for \<open>pop\<close>.
\<close>

record game =
  g_moves :: "string \<Rightarrow> move list"
  g_next :: "string \<Rightarrow> move \<Rightarrow> string"
  g_turn :: "string \<Rightarrow> color"
  g_checkmate :: "string \<Rightarrow> bool"
  g_stalemate :: "string \<Rightarrow> bool"
  g_over :: "string \<Rightarrow> bool"
  g_material :: "string \<Rightarrow> int"

type_synonym gboard = "string \<times> string list"

definition g_piece :: "int \<Rightarrow> nat \<Rightarrow> piece option" where
  "g_piece m sq =
     (if int sq < m then Some \<lparr>piece_type = PAWN, color = WHITE\<rparr>
      else if int sq < - m then Some \<lparr>piece_type = PAWN, color = BLACK\<rparr>
      else None)"

definition game_api :: "game \<Rightarrow> gboard board_api" where
  "game_api G =
     \<lparr>turn = (\<lambda>b. g_turn G (fst b)),
      is_checkmate = (\<lambda>b. (g_checkmate G (fst b), b)),
      is_stalemate = (\<lambda>b. (g_stalemate G (fst b), b)),
      is_insufficient_material = (\<lambda>b. (False, b)),
      is_game_over = (\<lambda>b. (g_over G (fst b), b)),
      piece_at = (\<lambda>sq b. (g_piece (g_material G (fst b)) sq, b)),
      legal_moves = (\<lambda>b. (g_moves G (fst b), b)),
      is_capture = (\<lambda>mv b. (False, b)),
      gives_check = (\<lambda>mv b. (False, b)),
      fen = (\<lambda>b. (fst b, b)),
      push = (\<lambda>mv b. (g_next G (fst b) mv, fst b # snd b)),
      pop = (\<lambda>b. case snd b of [] \<Rightarrow> b | p # ps \<Rightarrow> (p, ps))\<rparr>"

definition quiet_move :: "nat \<Rightarrow> nat \<Rightarrow> move" where
  "quiet_move a b = \<lparr>from_square = a, to_square = b, promotion = None\<rparr>"


text \<open>
  A game with a transposition: from \<open>R\<close> (Black to move) the move orders \<open>a, w, b\<close>
  and \<open>b, w, a\<close> reach the same position \<open>T\<close>, where White chooses between a move
  that keeps the material level and one that wins two pawns. \<open>AWX\<close> is a stalemate;
  \<open>AW2\<close> is a finished game in which White is a pawn up.
\<close>

definition tt_game :: game where
  "tt_game =
     \<lparr>g_moves = (\<lambda>p.
        if p = ''R'' then [quiet_move 48 40, quiet_move 55 47]
        else if p = ''A'' then [quiet_move 12 20, quiet_move 11 19]
        else if p = ''AW'' then [quiet_move 60 61, quiet_move 55 47]
        else if p = ''T'' then [quiet_move 6 21, quiet_move 5 12]
        else if p = ''B'' then [quiet_move 12 20]
        else if p = ''BW'' then [quiet_move 48 40]
        else []),
      g_next = (\<lambda>p m.
        if p = ''R'' then (if m = quiet_move 48 40 then ''A'' else ''B'')
        else if p = ''A'' then (if m = quiet_move 12 20 then ''AW'' else ''AW2'')
        else if p = ''AW'' then (if m = quiet_move 60 61 then ''AWX'' else ''T'')
        else if p = ''T'' then (if m = quiet_move 6 21 then ''T1'' else ''T2'')
        else if p = ''B'' then ''BW''
        else if p = ''BW'' then ''T''
        else ''END''),
      g_turn = (\<lambda>p. if p \<in> set [''R'', ''AW'', ''AW2'', ''BW'', ''T1'', ''T2''] then BLACK else WHITE),
      g_checkmate = (\<lambda>p. False),
      g_stalemate = (\<lambda>p. p = ''AWX''),
      g_over = (\<lambda>p. p \<in> set [''AWX'', ''AW2'']),
      g_material = (\<lambda>p. if p = ''T2'' then 2 else if p = ''AW2'' then 1 else 0)\<rparr>"

text \<open>
  Black to move has the single legal move \<open>Ka8-a7\<close>; White then mates with \<open>Qb1-a1\<close>
  (position \<open>M\<close>) or plays \<open>Qb1-b2\<close> (position \<open>Q\<close>), as in the chess position
  \<open>k7/2K5/8/8/8/8/8/1Q6 b\<close>.
\<close>

definition mated_game :: game where
  "mated_game =
     \<lparr>g_moves = (\<lambda>p.
        if p = ''R'' then [quiet_move 56 48]
        else if p = ''A'' then [quiet_move 1 9, quiet_move 1 0]
        else []),
      g_next = (\<lambda>p m.
        if p = ''R'' then ''A''
        else if p = ''A'' then (if m = quiet_move 1 0 then ''M'' else ''Q'')
        else ''END''),
      g_turn = (\<lambda>p. if p = ''A'' then WHITE else BLACK),
      g_checkmate = (\<lambda>p. p = ''M''),
      g_stalemate = (\<lambda>p. False),
      g_over = (\<lambda>p. p = ''M''),
      g_material = (\<lambda>p. 9)\<rparr>"


text \<open>
  A rules engine that keeps the pieces: a position is the list of the 64 squares and the
  side to move, and \<open>push\<close> moves the piece from the origin to the destination of the
  move (as the promotion piece, if the move names one). A pawn that changes file onto
  an empty square captures en passant: the pawn it passed, on the destination's file
  and the origin's rank, is removed. A move is a capture if the destination holds a
  piece of the other side or if it is en passant. The legal moves are a parameter.
\<close>

record position =
  placement :: "piece option list"
  to_move :: color

type_synonym pboard = "position \<times> position list"

definition piece_on :: "position \<Rightarrow> nat \<Rightarrow> piece option" where
  "piece_on p sq = (if sq < length (placement p) then placement p ! sq else None)"

definition is_en_passant :: "position \<Rightarrow> move \<Rightarrow> bool" where
  "is_en_passant p m =
     (case piece_on p (from_square m) of
        None \<Rightarrow> False
      | Some pc \<Rightarrow> piece_type pc = PAWN \<and> from_square m mod 8 \<noteq> to_square m mod 8
                  \<and> piece_on p (to_square m) = None)"

definition captures :: "position \<Rightarrow> move \<Rightarrow> bool" where
  "captures p m =
     ((case piece_on p (to_square m) of None \<Rightarrow> False | Some pc \<Rightarrow> color pc \<noteq> to_move p)
      \<or> is_en_passant p m)"

definition make_move :: "position \<Rightarrow> move \<Rightarrow> position" where
  "make_move p m =
     (let moved = (case promotion m of
                     None \<Rightarrow> piece_on p (from_square m)
                   | Some t \<Rightarrow> Some \<lparr>piece_type = t, color = to_move p\<rparr>);
          pl1 = (placement p)[to_square m := moved, from_square m := None];
          pl2 = (if is_en_passant p m
                 then pl1[(from_square m div 8) * 8 + to_square m mod 8 := None] else pl1)
      in \<lparr>placement = pl2, to_move = opponent (to_move p)\<rparr>)"

fun piece_symbol :: "piece option \<Rightarrow> char" where
  "piece_symbol None = CHR ''.''"
| "piece_symbol (Some pc) =
     (if color pc = WHITE
      then (case piece_type pc of PAWN \<Rightarrow> CHR ''P'' | KNIGHT \<Rightarrow> CHR ''N'' | BISHOP \<Rightarrow> CHR ''B''
              | ROOK \<Rightarrow> CHR ''R'' | QUEEN \<Rightarrow> CHR ''Q'' | KING \<Rightarrow> CHR ''K'')
      else (case piece_type pc of PAWN \<Rightarrow> CHR ''p'' | KNIGHT \<Rightarrow> CHR ''n'' | BISHOP \<Rightarrow> CHR ''b''
              | ROOK \<Rightarrow> CHR ''r'' | QUEEN \<Rightarrow> CHR ''q'' | KING \<Rightarrow> CHR ''k''))"

definition encoding :: "position \<Rightarrow> string" where
  "encoding p = map piece_symbol (placement p) @ (if to_move p = WHITE then ''w'' else ''b'')"

definition placement_api :: "(position \<Rightarrow> move list) \<Rightarrow> pboard board_api" where
  "placement_api legal =
     \<lparr>turn = (\<lambda>b. to_move (fst b)),
      is_checkmate = (\<lambda>b. (False, b)),
      is_stalemate = (\<lambda>b. (False, b)),
      is_insufficient_material = (\<lambda>b. (False, b)),
      is_game_over = (\<lambda>b. (False, b)),
      piece_at = (\<lambda>sq b. (piece_on (fst b) sq, b)),
      legal_moves = (\<lambda>b. (legal (fst b), b)),
      is_capture = (\<lambda>m b. (captures (fst b) m, b)),
      gives_check = (\<lambda>m b. (False, b)),
      fen = (\<lambda>b. (encoding (fst b), b)),
      push = (\<lambda>m b. (make_move (fst b) m, fst b # snd b)),
      pop = (\<lambda>b. case snd b of [] \<Rightarrow> b | p # ps \<Rightarrow> (p, ps))\<rparr>"

definition man :: "color \<Rightarrow> piece_type \<Rightarrow> piece option" where
  "man c t = Some \<lparr>piece_type = t, color = c\<rparr>"

text \<open>
  White: king e1, pawn e5. Black: king e8, pawn d5, which has just advanced two squares.
  White to move may capture it en passant, \<open>e5xd6\<close>.
\<close>

definition ep_position :: position where
  "ep_position =
     \<lparr>placement = (replicate 64 None)
        [4 := man WHITE KING, 36 := man WHITE PAWN, 35 := man BLACK PAWN, 60 := man BLACK KING],
      to_move = WHITE\<rparr>"

definition ep_move :: move where
  "ep_move = quiet_move 36 43"

definition ep_api :: "pboard board_api" where
  "ep_api = placement_api (\<lambda>p. if p = ep_position then [quiet_move 4 12, ep_move] else [])"

text \<open>
  The standard starting position after \<open>1. e4\<close>, and Black's twenty replies: sixteen
  pawn moves and four knight moves.
\<close>

definition after_e4 :: position where
  "after_e4 =
     \<lparr>placement =
        [man WHITE ROOK, man WHITE KNIGHT, man WHITE BISHOP, man WHITE QUEEN,
         man WHITE KING, man WHITE BISHOP, man WHITE KNIGHT, man WHITE ROOK]
        @ [man WHITE PAWN, man WHITE PAWN, man WHITE PAWN, man WHITE PAWN,
           None, man WHITE PAWN, man WHITE PAWN, man WHITE PAWN]
        @ replicate 8 None
        @ [None, None, None, None, man WHITE PAWN, None, None, None]
        @ replicate 16 None
        @ replicate 8 (man BLACK PAWN)
        @ [man BLACK ROOK, man BLACK KNIGHT, man BLACK BISHOP, man BLACK QUEEN,
           man BLACK KING, man BLACK BISHOP, man BLACK KNIGHT, man BLACK ROOK],
      to_move = BLACK\<rparr>"

definition replies :: "move list" where
  "replies =
     [quiet_move 62 47, quiet_move 62 45, quiet_move 57 42, quiet_move 57 40]
     @ map (\<lambda>f. quiet_move (48 + f) (40 + f)) (rev [0..<8])
     @ map (\<lambda>f. quiet_move (48 + f) (32 + f)) (rev [0..<8])"

definition opening_api :: "pboard board_api" where
  "opening_api = placement_api (\<lambda>p. if p = after_e4 then replies else [])"
section \<open>Queries that leave the board alone\<close>


lemma piece_values_stated: "piece_values t = stated_value t"
  by (cases t) simp_all

lemma read_onlyD:
  assumes "read_only L"
  shows "snd (is_checkmate L b) = b" and "snd (is_stalemate L b) = b"
    and "snd (is_insufficient_material L b) = b" and "snd (is_game_over L b) = b"
    and "snd (piece_at L sq b) = b" and "snd (legal_moves L b) = b"
    and "snd (is_capture L m b) = b" and "snd (gives_check L m b) = b"
    and "snd (fen L b) = b"
  using assms by (simp_all add: read_only_def)

lemma material_loop_read_only:
  assumes "read_only L"
  shows "material_loop L sqs s b = (s + (\<Sum>sq\<leftarrow>sqs. square_value L b sq), b)"
proof (induction sqs arbitrary: s)
  case Nil
  show ?case by simp
next
  case (Cons sq sqs)
  obtain p b1 where pa: "piece_at L sq b = (p, b1)"
    by (cases "piece_at L sq b")
  with read_onlyD(5)[OF assms, of sq b] have b1: "b1 = b"
    by simp
  show ?case
  proof (cases p)
    case None
    with pa b1 Cons show ?thesis
      by (simp add: square_value_def)
  next
    case (Some pc)
    with pa b1 Cons show ?thesis
      by (simp add: square_value_def piece_values_stated Let_def)
  qed
qed

lemma evaluate_board_read_only:
  assumes "read_only L"
  shows "evaluate_board L b = (stated_evaluation L b, b)"
proof -
  obtain cm b1 where cm: "is_checkmate L b = (cm, b1)"
    by (cases "is_checkmate L b")
  obtain sm b2 where sm: "is_stalemate L b = (sm, b2)"
    by (cases "is_stalemate L b")
  obtain im b3 where im: "is_insufficient_material L b = (im, b3)"
    by (cases "is_insufficient_material L b")
  from cm sm im read_onlyD(1-3)[OF assms, of b] have bs: "b1 = b" "b2 = b" "b3 = b"
    by simp_all
  show ?thesis
    using cm sm im bs material_loop_read_only[OF assms, of SQUARES 0 b]
    by (cases cm; cases sm; cases im)
      (simp_all add: evaluate_board_def stated_evaluation_def material_balance_def SQUARES_def)
qed

lemma score_move_read_only:
  assumes "read_only L"
  shows "score_move L m b = (heuristic L b m, b)"
proof -
  obtain cap b1 where cap: "is_capture L m b = (cap, b1)"
    by (cases "is_capture L m b")
  obtain vi b2 where vi: "piece_at L (to_square m) b = (vi, b2)"
    by (cases "piece_at L (to_square m) b")
  obtain at b3 where at: "piece_at L (from_square m) b = (at, b3)"
    by (cases "piece_at L (from_square m) b")
  obtain chk b5 where chk: "gives_check L m b = (chk, b5)"
    by (cases "gives_check L m b")
  from cap vi at chk read_onlyD(7)[OF assms, of m b] read_onlyD(8)[OF assms, of m b]
    read_onlyD(5)[OF assms, of "to_square m" b] read_onlyD(5)[OF assms, of "from_square m" b]
  have bs: "b1 = b" "b2 = b" "b3 = b" "b5 = b"
    by simp_all
  show ?thesis
    using cap vi at chk bs
    by (simp add: score_move_def heuristic_def value_at_def piece_values_stated
        split: option.splits)
qed

lemma score_all_read_only:
  assumes "read_only L"
  shows "score_all L ms b = (map (heuristic L b) ms, b)"
  by (induction ms) (simp_all add: score_move_read_only[OF assms])


lemma order_moves_read_only:
  assumes "read_only L"
  shows "order_moves L b = (ordered L b, b)"
proof -
  obtain ms b1 where ms: "legal_moves L b = (ms, b1)"
    by (cases "legal_moves L b")
  with read_onlyD(6)[OF assms, of b] have "b1 = b" by simp
  with ms show ?thesis
    by (simp add: order_moves_def ordered_def score_all_read_only[OF assms])
qed


section \<open>One step of the search\<close>


lemma minimax_SucE:
  assumes "minimax L (Suc n) b d a be mx T = res"
  obtains
    (hit) f b1 v where "fen L b = (f, b1)" "T (f, d, mx) = Some v" "res = (Inr v, b1, T)"
  | (leaf) f b1 b2 val b3 where "fen L b = (f, b1)" "T (f, d, mx) = None"
      "(if d = 0 then (True, b1) else is_game_over L b1) = (True, b2)"
      "evaluate_board L b2 = (val, b3)" "res = (Inr val, b3, T((f, d, mx) \<mapsto> val))"
  | (raised) f b1 b2 ms b3 e b4 T4 where "fen L b = (f, b1)" "T (f, d, mx) = None"
      "(if d = 0 then (True, b1) else is_game_over L b1) = (False, b2)"
      "order_moves L b2 = (ms, b3)"
      "(if mx then max_loop L (\<lambda>b' a' be' T'. minimax L n b' (d - 1) a' be' False T') ms NegInf a be b3 T
        else min_loop L (\<lambda>b' a' be' T'. minimax L n b' (d - 1) a' be' True T') ms PosInf a be b3 T)
       = (Inl e, b4, T4)"
      "res = (Inl e, b4, T4)"
  | (returned) f b1 b2 ms b3 v b4 T4 where "fen L b = (f, b1)" "T (f, d, mx) = None"
      "(if d = 0 then (True, b1) else is_game_over L b1) = (False, b2)"
      "order_moves L b2 = (ms, b3)"
      "(if mx then max_loop L (\<lambda>b' a' be' T'. minimax L n b' (d - 1) a' be' False T') ms NegInf a be b3 T
        else min_loop L (\<lambda>b' a' be' T'. minimax L n b' (d - 1) a' be' True T') ms PosInf a be b3 T)
       = (Inr v, b4, T4)"
      "res = (Inr v, b4, T4((f, d, mx) \<mapsto> v))"
proof -
  obtain f b1 where f: "fen L b = (f, b1)" by (cases "fen L b")
  show thesis
  proof (cases "T (f, d, mx)")
    case (Some v)
    with f assms have "res = (Inr v, b1, T)" by simp
    with f Some show thesis by (rule hit)
  next
    case None
    obtain ov b2 where ov: "(if d = 0 then (True, b1) else is_game_over L b1) = (ov, b2)"
      by (metis surj_pair)
    show thesis
    proof (cases ov)
      case True
      obtain val b3 where ev: "evaluate_board L b2 = (val, b3)"
        by (cases "evaluate_board L b2")
      from f None ov True ev assms have "res = (Inr val, b3, T((f, d, mx) \<mapsto> val))"
        by simp
      with f None ov True ev show thesis by (auto intro: leaf)
    next
      case False
      obtain ms b3 where om: "order_moves L b2 = (ms, b3)"
        by (cases "order_moves L b2")
      obtain r b4 T4 where loop:
        "(if mx then max_loop L (\<lambda>b' a' be' T'. minimax L n b' (d - 1) a' be' False T') ms NegInf a be b3 T
          else min_loop L (\<lambda>b' a' be' T'. minimax L n b' (d - 1) a' be' True T') ms PosInf a be b3 T)
         = (r, b4, T4)"
        by (metis prod_cases3)
      show thesis
      proof (cases r)
        case (Inl e)
        from f None ov False om loop Inl assms have "res = (Inl e, b4, T4)"
          by (cases mx) simp_all
        with f None ov False om loop Inl show thesis by (auto intro: raised)
      next
        case (Inr v)
        from f None ov False om loop Inr assms have "res = (Inr v, b4, T4((f, d, mx) \<mapsto> v))"
          by (cases mx) simp_all
        with f None ov False om loop Inr show thesis by (auto intro: returned)
      qed
    qed
  qed
qed


section \<open>The board after a search that returns\<close>





lemma minimax_Suc_read_only:
  assumes ro: "read_only L"
  shows "minimax L (Suc n) b d a be mx T =
    (case T (fst (fen L b), d, mx) of
       Some v \<Rightarrow> (Inr v, b, T)
     | None \<Rightarrow>
        if d = 0 \<or> fst (is_game_over L b)
        then (Inr (stated_evaluation L b), b, T((fst (fen L b), d, mx) \<mapsto> stated_evaluation L b))
        else if mx then
          (case max_loop L (\<lambda>b' a' be' T'. minimax L n b' (d - 1) a' be' False T')
                  (ordered L b) NegInf a be b T of
             (Inl e, b4, T4) \<Rightarrow> (Inl e, b4, T4)
           | (Inr v, b4, T4) \<Rightarrow> (Inr v, b4, T4((fst (fen L b), d, mx) \<mapsto> v)))
        else
          (case min_loop L (\<lambda>b' a' be' T'. minimax L n b' (d - 1) a' be' True T')
                  (ordered L b) PosInf a be b T of
             (Inl e, b4, T4) \<Rightarrow> (Inl e, b4, T4)
           | (Inr v, b4, T4) \<Rightarrow> (Inr v, b4, T4((fst (fen L b), d, mx) \<mapsto> v))))"
proof -
  obtain f b1 where f: "fen L b = (f, b1)" by (cases "fen L b")
  obtain ov b2 where ov: "is_game_over L b = (ov, b2)" by (cases "is_game_over L b")
  from f ov read_onlyD(9)[OF ro, of b] read_onlyD(4)[OF ro, of b] have bs: "b1 = b" "b2 = b"
    by simp_all
  show ?thesis
    using f ov bs
    by (cases "T (f, d, mx)"; cases mx; cases "d = 0"; cases ov)
      (simp_all add: evaluate_board_read_only[OF ro] order_moves_read_only[OF ro]
        cong: prod.case_cong sum.case_cong)
qed



section \<open>The table only grows\<close>


lemma minimax_hit:
  assumes "T (fst (fen L b), d, mx) = Some v"
  shows "minimax L (Suc n) b d a be mx T = (Inr v, snd (fen L b), T)"
  using assms by (cases "fen L b") simp

declare minimax.simps(2) [simp del]








lemma minimax_stores_result:
  assumes "minimax L n b d a be mx T = (Inr v, b', T')"
  shows "T' (fst (fen L b), d, mx) = Some v"
proof (cases n)
  case 0
  with assms show ?thesis by simp
next
  case (Suc k)
  with assms have "minimax L (Suc k) b d a be mx T = (Inr v, b', T')" by simp
  then show ?thesis
    by (cases rule: minimax_SucE) auto
qed



text \<open>A call at depth \<open>d\<close> changes the table only at keys of depth at most \<open>d\<close>.\<close>

lemma max_loop_changes:
  assumes "snd (snd (max_loop L rec ms me a be b T)) k \<noteq> T k"
    and rec: "\<And>b a be T k. snd (snd (rec b a be T)) k \<noteq> T k \<Longrightarrow> fst (snd k) \<le> d'"
  shows "fst (snd k) \<le> d'"
  using assms(1)
proof (induction ms arbitrary: me a b T)
  case Nil
  then show ?case by simp
next
  case (Cons m ms)
  obtain r b1 T1 where r: "rec (push L m b) a be T = (r, b1, T1)"
    by (metis prod_cases3)
  show ?case
  proof (cases "T1 k = T k")
    case False
    with rec[of "push L m b" a be T k] r show ?thesis by simp
  next
    case True
    show ?thesis
    proof (cases r)
      case (Inl e)
      with Cons.prems r True show ?thesis by simp
    next
      case (Inr val)
      show ?thesis
      proof (cases "be \<le> max a val")
        case prune: True
        with Cons.prems r Inr True show ?thesis by (simp add: Let_def)
      next
        case False
        with Cons.prems r Inr True
        have "snd (snd (max_loop L rec ms (max me val) (max a val) be (pop L b1) T1)) k \<noteq> T1 k"
          by (simp add: Let_def)
        then show ?thesis by (rule Cons.IH)
      qed
    qed
  qed
qed

lemma min_loop_changes:
  assumes "snd (snd (min_loop L rec ms me a be b T)) k \<noteq> T k"
    and rec: "\<And>b a be T k. snd (snd (rec b a be T)) k \<noteq> T k \<Longrightarrow> fst (snd k) \<le> d'"
  shows "fst (snd k) \<le> d'"
  using assms(1)
proof (induction ms arbitrary: me be b T)
  case Nil
  then show ?case by simp
next
  case (Cons m ms)
  obtain r b1 T1 where r: "rec (push L m b) a be T = (r, b1, T1)"
    by (metis prod_cases3)
  show ?case
  proof (cases "T1 k = T k")
    case False
    with rec[of "push L m b" a be T k] r show ?thesis by simp
  next
    case True
    show ?thesis
    proof (cases r)
      case (Inl e)
      with Cons.prems r True show ?thesis by simp
    next
      case (Inr val)
      show ?thesis
      proof (cases "min be val \<le> a")
        case prune: True
        with Cons.prems r Inr True show ?thesis by (simp add: Let_def)
      next
        case False
        with Cons.prems r Inr True
        have "snd (snd (min_loop L rec ms (min me val) a (min be val) (pop L b1) T1)) k \<noteq> T1 k"
          by (simp add: Let_def)
        then show ?thesis by (rule Cons.IH)
      qed
    qed
  qed
qed

lemma minimax_changes:
  "snd (snd (minimax L n b d a be mx T)) k \<noteq> T k \<Longrightarrow> fst (snd k) \<le> d"
proof (induction n arbitrary: b d a be mx T k)
  case 0
  then show ?case by simp
next
  case (Suc n)
  have loops: "fst (snd k) \<le> d - 1"
    if "snd (snd (if mx then max_loop L (\<lambda>b' a' be' T'. minimax L n b' (d - 1) a' be' False T') ms NegInf a be b3 T
        else min_loop L (\<lambda>b' a' be' T'. minimax L n b' (d - 1) a' be' True T') ms PosInf a be b3 T)) k \<noteq> T k"
    for ms b3
  proof (cases mx)
    case True
    with that have "snd (snd (max_loop L (\<lambda>b' a' be' T'. minimax L n b' (d - 1) a' be' False T') ms NegInf a be b3 T)) k \<noteq> T k"
      by simp
    then show ?thesis by (rule max_loop_changes) (rule Suc.IH)
  next
    case False
    with that have "snd (snd (min_loop L (\<lambda>b' a' be' T'. minimax L n b' (d - 1) a' be' True T') ms PosInf a be b3 T)) k \<noteq> T k"
      by simp
    then show ?thesis by (rule min_loop_changes) (rule Suc.IH)
  qed
  have "minimax L (Suc n) b d a be mx T = minimax L (Suc n) b d a be mx T"
    by (rule refl)
  then show ?case
  proof (cases rule: minimax_SucE)
    case (hit f b1 v)
    with Suc.prems show ?thesis by simp
  next
    case (leaf f b1 b2 val b3)
    with Suc.prems show ?thesis by (auto split: if_splits)
  next
    case (raised f b1 b2 ms b3 e b4 T4)
    with Suc.prems loops[of ms b3] show ?thesis by simp
  next
    case (returned f b1 b2 ms b3 v b4 T4)
    show ?thesis
    proof (cases "k = (f, d, mx)")
      case True
      then show ?thesis by simp
    next
      case False
      with Suc.prems returned loops[of ms b3] show ?thesis by simp
    qed
  qed
qed

text \<open>So the store that ends a node writes a key that is still absent.\<close>

lemma final_store_fresh:
  assumes "T (f, d, mx) = None"
    and "(if mx then max_loop L (\<lambda>b' a' be' T'. minimax L n b' (d - 1) a' be' False T') ms NegInf a be b3 T
        else min_loop L (\<lambda>b' a' be' T'. minimax L n b' (d - 1) a' be' True T') ms PosInf a be b3 T)
       = (r, b4, T4)"
  shows "T4 (f, d, mx) = None"
proof (rule ccontr)
  assume "T4 (f, d, mx) \<noteq> None"
  with assms(1) have neq: "T4 (f, d, mx) \<noteq> T (f, d, mx)" by simp
  have "fst (snd (f, d, mx)) \<le> d - 1"
  proof (cases mx)
    case True
    with assms(2) neq
    have "snd (snd (max_loop L (\<lambda>b' a' be' T'. minimax L n b' (d - 1) a' be' False T') ms NegInf a be b3 T)) (f, d, mx) \<noteq> T (f, d, mx)"
      by simp
    then show ?thesis by (rule max_loop_changes) (rule minimax_changes)
  next
    case False
    with assms(2) neq
    have "snd (snd (min_loop L (\<lambda>b' a' be' T'. minimax L n b' (d - 1) a' be' True T') ms PosInf a be b3 T)) (f, d, mx) \<noteq> T (f, d, mx)"
      by simp
    then show ?thesis by (rule min_loop_changes) (rule minimax_changes)
  qed
  then show False by simp
qed


section \<open>Searches that return\<close>









section \<open>The ordered moves\<close>


lemma zip_keys_fst:
  "p \<in> set (zip (map h ms) ms) \<Longrightarrow> fst p = h (snd p)"
  by (induction ms) auto

lemma ordered_mset: "mset (ordered L b) = mset (fst (legal_moves L b))"
proof -
  let ?ms = "fst (legal_moves L b)"
  let ?zs = "zip (map (heuristic L b) ?ms) ?ms"
  have "map snd ?zs = ?ms"
    by (simp add: map_snd_zip)
  then have "mset ?ms = image_mset snd (mset ?zs)"
    by (metis mset_map)
  then show ?thesis
    by (simp add: ordered_def)
qed

lemma ordered_sorted:
  "sorted_wrt (\<lambda>m m'. heuristic L b m' \<le> heuristic L b m) (ordered L b)"
proof -
  let ?h = "heuristic L b"
  let ?ms = "fst (legal_moves L b)"
  let ?zs = "zip (map ?h ?ms) ?ms"
  let ?S = "sort_key (\<lambda>(k, m). - k) ?zs"
  have "sorted (map (\<lambda>(k, m). - k) ?S)"
    by (rule sorted_sort_key)
  moreover have "map (\<lambda>(k, m). - k) ?S = map (\<lambda>m. - ?h m) (map snd ?S)"
  proof -
    have "\<And>p. p \<in> set ?S \<Longrightarrow> (case p of (k, m) \<Rightarrow> - k) = - ?h (snd p)"
      using zip_keys_fst[of _ ?h ?ms] by (auto simp: case_prod_beta)
    then show ?thesis by (simp add: o_def cong: map_cong)
  qed
  ultimately have "sorted (map (\<lambda>m. - ?h m) (ordered L b))"
    by (simp add: ordered_def)
  then show ?thesis
    by (simp add: sorted_map)
qed


section \<open>The small rules engines are well behaved\<close>


lemma read_only_game_api: "read_only (game_api G)"
  by (simp add: read_only_def game_api_def)

lemma undo_push_game_api: "undo_push (game_api G)"
  by (simp add: undo_push_def game_api_def)


lemma read_only_placement_api: "read_only (placement_api legal)"
  by (simp add: read_only_def placement_api_def)

lemma undo_push_placement_api: "undo_push (placement_api legal)"
  by (simp add: undo_push_def placement_api_def)

lemma read_only_ep_api: "read_only ep_api"
  by (simp add: ep_api_def read_only_placement_api)

lemma read_only_opening_api: "read_only opening_api"
  by (simp add: opening_api_def read_only_placement_api)

lemma undo_push_opening_api: "undo_push opening_api"
  by (simp add: opening_api_def undo_push_placement_api)


section \<open>What the selector chooses\<close>


lemma Fin_less_PosInf: "Fin x < PosInf"
  by (simp add: less_score_def)

lemma root_loop_select:
  assumes "undo_push L"
    and "\<And>m a be T. m \<in> set ms \<Longrightarrow> Inv T \<Longrightarrow>
           \<exists>T'. rec (push L m b) a be T = (Inr (val m), push L m b, T') \<and> Inv T'"
    and "Inv T"
  shows "\<exists>bm' bv' T'. root_loop L rec ms bm bv a be b T = (Inr (bm', bv'), b, T') \<and> Inv T' \<and>
           ((bm' = bm \<and> bv' = bv) \<or> (\<exists>m\<in>set ms. bm' = Some m \<and> bv' = val m)) \<and>
           bv' \<le> bv \<and> (\<forall>m\<in>set ms. bv' \<le> val m)"
  using assms(2,3)
proof (induction ms arbitrary: bm bv be T)
  case Nil
  then show ?case by simp
next
  case (Cons m ms)
  from Cons.prems(1)[of m T a be] Cons.prems(2) obtain T1
    where r: "rec (push L m b) a be T = (Inr (val m), push L m b, T1)" and inv1: "Inv T1"
    by auto
  from assms(1) have pop: "pop L (push L m b) = b"
    by (simp add: undo_push_def)
  have rec': "\<And>m' a be T. m' \<in> set ms \<Longrightarrow> Inv T \<Longrightarrow>
           \<exists>T'. rec (push L m' b) a be T = (Inr (val m'), push L m' b, T') \<and> Inv T'"
    using Cons.prems(1) by simp
  show ?case
  proof (cases "val m < bv")
    case True
    from Cons.IH[OF rec' inv1, of "Some m" "val m" "min be (val m)"]
    obtain bm' bv' T' where
      "root_loop L rec ms (Some m) (val m) a (min be (val m)) b T1 = (Inr (bm', bv'), b, T')"
      "Inv T'" "(bm' = Some m \<and> bv' = val m) \<or> (\<exists>m'\<in>set ms. bm' = Some m' \<and> bv' = val m')"
      "bv' \<le> val m" "\<forall>m'\<in>set ms. bv' \<le> val m'"
      by blast
    with r pop True show ?thesis
      by (auto simp: Let_def)
  next
    case False
    from Cons.IH[OF rec' inv1, of bm bv be]
    obtain bm' bv' T' where
      "root_loop L rec ms bm bv a be b T1 = (Inr (bm', bv'), b, T')"
      "Inv T'" "(bm' = bm \<and> bv' = bv) \<or> (\<exists>m'\<in>set ms. bm' = Some m' \<and> bv' = val m')"
      "bv' \<le> bv" "\<forall>m'\<in>set ms. bv' \<le> val m'"
      by blast
    with r pop False show ?thesis
      by (auto simp: Let_def)
  qed
qed



lemma leaf_reply:
  assumes ro: "read_only L"
    and ev: "stated_evaluation L c = w"
    and inv: "\<And>v. T (fst (fen L c), 0, True) = Some v \<Longrightarrow> v = w"
  shows "minimax L (Suc n) c 0 a be True T = (Inr w, c, T) \<or>
         (T (fst (fen L c), 0, True) = None \<and>
          minimax L (Suc n) c 0 a be True T = (Inr w, c, T((fst (fen L c), 0, True) \<mapsto> w)))"
proof (cases "T (fst (fen L c), 0, True)")
  case (Some v)
  with inv have "v = w" by simp
  with Some show ?thesis
    by (simp add: minimax_Suc_read_only[OF ro])
next
  case None
  with ev show ?thesis
    by (simp add: minimax_Suc_read_only[OF ro])
qed


lemma depth_one_reply:
  assumes ro: "read_only L" and undo: "undo_push L"
    and nonempty: "fst (legal_moves L b) \<noteq> []"
    and quiet: "\<forall>m\<in>set (fst (legal_moves L b)).
        stated_evaluation L (push L m b) = Fin (material_balance L (push L m b))"
    and canon: "\<forall>m\<in>set (fst (legal_moves L b)). \<forall>m'\<in>set (fst (legal_moves L b)).
        fst (fen L (push L m b)) = fst (fen L (push L m' b)) \<longrightarrow>
        material_balance L (push L m b) = material_balance L (push L m' b)"
  shows "\<exists>m T'. find_best_move_loop L (Suc n) b 1 Map.empty
            = (Inr (Some m, Fin (material_balance L (push L m b))), b, T')
          \<and> m \<in> set (fst (legal_moves L b))"
proof -
  let ?legal = "fst (legal_moves L b)"
  let ?rec = "\<lambda>b' a' be' T'. minimax L (Suc n) b' 0 a' be' True T'"
  define val where "val m = Fin (material_balance L (push L m b))" for m
  define Inv where "Inv T \<longleftrightarrow> (\<forall>m\<in>set ?legal. \<forall>v.
      T (fst (fen L (push L m b)), 0, True) = Some v \<longrightarrow> v = val m)" for T :: table
  have set_eq: "set (ordered L b) = set ?legal"
    using ordered_mset[of L b] by (rule mset_eq_setD)
  have rec: "\<exists>T'. ?rec (push L m b) a be T = (Inr (val m), push L m b, T') \<and> Inv T'"
    if m: "m \<in> set (ordered L b)" and inv: "Inv T" for m a be T
  proof -
    let ?k = "(fst (fen L (push L m b)), 0::int, True)"
    from m set_eq have ml: "m \<in> set ?legal" by simp
    with quiet have ev: "stated_evaluation L (push L m b) = val m"
      by (simp add: val_def)
    from inv ml have hit: "\<And>v. T ?k = Some v \<Longrightarrow> v = val m"
      by (simp add: Inv_def)
    have upd: "Inv (T(?k \<mapsto> val m))"
      unfolding Inv_def
    proof (intro ballI allI impI)
      fix m' v
      assume m': "m' \<in> set ?legal"
        and v: "(T(?k \<mapsto> val m)) (fst (fen L (push L m' b)), 0, True) = Some v"
      show "v = val m'"
      proof (cases "fst (fen L (push L m' b)) = fst (fen L (push L m b))")
        case True
        with canon ml m' have "material_balance L (push L m' b) = material_balance L (push L m b)"
          by metis
        then have "val m' = val m" by (simp add: val_def)
        with True v show ?thesis by simp
      next
        case False
        with v have "T (fst (fen L (push L m' b)), 0, True) = Some v" by simp
        with inv m' show ?thesis by (simp add: Inv_def)
      qed
    qed
    from leaf_reply[OF ro ev hit, where n = n and a = a and be = be] show ?thesis
    proof
      assume "?rec (push L m b) a be T = (Inr (val m), push L m b, T)"
      with inv show ?thesis by simp
    next
      assume "T ?k = None \<and> ?rec (push L m b) a be T = (Inr (val m), push L m b, T(?k \<mapsto> val m))"
      with upd show ?thesis by simp
    qed
  qed
  have inv0: "Inv Map.empty"
    by (simp add: Inv_def)
  have "\<exists>bm' bv' T'. root_loop L ?rec (ordered L b) None PosInf NegInf PosInf b Map.empty
           = (Inr (bm', bv'), b, T') \<and> Inv T' \<and>
           ((bm' = None \<and> bv' = PosInf) \<or> (\<exists>m\<in>set (ordered L b). bm' = Some m \<and> bv' = val m)) \<and>
           bv' \<le> PosInf \<and> (\<forall>m\<in>set (ordered L b). bv' \<le> val m)"
    using undo rec inv0 by (rule root_loop_select)
  then obtain bm' bv' T' where
    loop: "root_loop L ?rec (ordered L b) None PosInf NegInf PosInf b Map.empty = (Inr (bm', bv'), b, T')"
    and sel: "(bm' = None \<and> bv' = PosInf) \<or> (\<exists>m\<in>set (ordered L b). bm' = Some m \<and> bv' = val m)"
    and low: "\<forall>m\<in>set (ordered L b). bv' \<le> val m"
    by blast
  from nonempty set_eq obtain m0 where m0: "m0 \<in> set (ordered L b)"
    by (cases ?legal) auto
  with low have "bv' \<le> val m0" by blast
  moreover have "val m0 < PosInf"
    by (simp add: val_def Fin_less_PosInf)
  ultimately have "bv' \<noteq> PosInf" by auto
  with sel obtain m where m: "m \<in> set (ordered L b)" "bm' = Some m" "bv' = val m"
    by blast
  have "find_best_move_loop L (Suc n) b 1 Map.empty
      = root_loop L ?rec (ordered L b) None PosInf NegInf PosInf b Map.empty"
    by (simp add: find_best_move_loop_def order_moves_read_only[OF ro])
  with loop m have "find_best_move_loop L (Suc n) b 1 Map.empty
      = (Inr (Some m, Fin (material_balance L (push L m b))), b, T')"
    by (simp add: val_def)
  with m(1) set_eq show ?thesis by blast
qed



lemma root_loop_best_move:
  "root_loop L rec ms bm bv a be b T = (Inr (bm', bv'), b', T') \<Longrightarrow>
   bm' = bm \<or> (\<exists>m\<in>set ms. bm' = Some m)"
proof (induction ms arbitrary: bm bv be b T)
  case Nil
  then show ?case by simp
next
  case (Cons m ms)
  obtain r b1 T1 where r: "rec (push L m b) a be T = (r, b1, T1)"
    by (metis prod_cases3)
  show ?case
  proof (cases r)
    case (Inl e)
    with Cons.prems r show ?thesis by simp
  next
    case (Inr val)
    show ?thesis
    proof (cases "val < bv")
      case True
      with Cons.prems r Inr
      have "root_loop L rec ms (Some m) val a (min be val) (pop L b1) T1 = (Inr (bm', bv'), b', T')"
        by (simp add: Let_def)
      from Cons.IH[OF this] show ?thesis by auto
    next
      case False
      with Cons.prems r Inr
      have "root_loop L rec ms bm bv a be (pop L b1) T1 = (Inr (bm', bv'), b', T')"
        by (simp add: Let_def)
      from Cons.IH[OF this] show ?thesis by auto
    qed
  qed
qed

lemma find_best_move_is_legal:
  assumes ro: "read_only L"
    and res: "find_best_move L n b depth T = (Inr (Some m), b', T')"
  shows "m \<in> set (fst (legal_moves L b))"
proof -
  obtain r b1 T1 where loop: "root_loop L (\<lambda>b' a' be' T'. minimax L n b' (depth - 1) a' be' True T')
      (ordered L b) None PosInf NegInf PosInf b T = (r, b1, T1)"
    by (metis prod_cases3)
  with res obtain bv where "r = Inr (Some m, bv)"
    by (cases r) (auto simp: find_best_move_def find_best_move_loop_def order_moves_read_only[OF ro]
        split: prod.splits)
  with loop root_loop_best_move[of L _ "ordered L b" None PosInf NegInf PosInf b T "Some m" bv b1 T1]
  have "m \<in> set (ordered L b)" by auto
  moreover have "set (ordered L b) = set (fst (legal_moves L b))"
    using ordered_mset[of L b] by (rule mset_eq_setD)
  ultimately show ?thesis by simp
qed

lemma find_best_move_no_moves:
  assumes ro: "read_only L" and "fst (legal_moves L b) = []"
  shows "find_best_move L n b depth T = (Inr None, b, T)"
  using assms(2)
  by (simp add: find_best_move_def find_best_move_loop_def order_moves_read_only[OF ro] ordered_def)


section \<open>The board after a search that fails\<close>









section \<open>Searches in games whose lines end\<close>











section \<open>The claims\<close>

subsection \<open>C1: pruning, caching and the full minimax\<close>

text \<open>
  Claim C1 fails on the code. In \<open>tt_game\<close>, whose queries leave the board alone
  and whose \<open>pop\<close> undoes \<open>push\<close>, searched to depth 4 from an empty table,
  position \<open>T\<close> is first searched below \<open>AW\<close> with \<open>beta = 0\<close>, cut off after its
  first move and stored with the value \<open>0\<close>; its value is \<open>2\<close>. Below \<open>BW\<close> the
  table returns the \<open>0\<close>, so the second root move scores \<open>0\<close> against \<open>1\<close> for the
  first and is chosen. The full minimax scores them \<open>1\<close> and \<open>2\<close> and chooses the first.
\<close>

theorem cached_search_differs_from_full_minimax:
  "read_only (game_api tt_game) \<and> undo_push (game_api tt_game) \<and>
   fst (find_best_move (game_api tt_game) 4 (''R'', []) 4 Map.empty) = Inr (Some (quiet_move 55 47)) \<and>
   full_best_move (game_api tt_game) 4 (''R'', []) = Some (quiet_move 48 40)"
proof -
  have "fst (find_best_move (game_api tt_game) 4 (''R'', []) 4 Map.empty) = Inr (Some (quiet_move 55 47)) \<and>
    full_best_move (game_api tt_game) 4 (''R'', []) = Some (quiet_move 48 40)"
    by code_simp
  with read_only_game_api[of tt_game] undo_push_game_api[of tt_game] show ?thesis
    by (intro conjI) (erule conjunct1 conjunct2 | assumption)+
qed

subsection \<open>C2: the selector and the legal moves\<close>

text \<open>
  Claim C2 fails on the code. A move that \<open>find_best_move\<close> returns is legal
  (\<open>find_best_move_is_legal\<close>), and without a legal move it returns \<open>None\<close>
  (\<open>find_best_move_no_moves\<close>). But in \<open>mated_game\<close> Black has a legal move, every
  move lets White mate, so every value is the positive infinity, the test
  \<open>val < best_val\<close> never holds, and \<open>find_best_move\<close> returns \<open>None\<close>.
\<close>

theorem no_move_despite_legal_move:
  "read_only (game_api mated_game) \<and> undo_push (game_api mated_game) \<and>
   fst (legal_moves (game_api mated_game) (''R'', [])) = [quiet_move 56 48] \<and>
   fst (find_best_move (game_api mated_game) 2 (''R'', []) 2 Map.empty) = Inr None"
proof -
  have "fst (legal_moves (game_api mated_game) (''R'', [])) = [quiet_move 56 48] \<and>
    fst (find_best_move (game_api mated_game) 2 (''R'', []) 2 Map.empty) = Inr None"
    by code_simp
  with read_only_game_api[of mated_game] undo_push_game_api[of mated_game] show ?thesis
    by (intro conjI) (erule conjunct1 conjunct2 | assumption)+
qed

subsection \<open>C3: what the evaluator returns\<close>

text \<open>
  Claim C3. For every board, with a rules engine whose queries leave the board alone,
  \<open>evaluate_board\<close> returns the negative infinity if the position is checkmate with
  White to move and the positive infinity if it is checkmate with Black to move; zero
  if it is stalemate or has insufficient material; otherwise the material balance: the
  sum over the 64 squares of the value of the piece there (pawn 1, knight 3, bishop 3,
  rook 5, queen 9, king 0), added for White and subtracted for Black.
\<close>

theorem evaluate_board_score:
  assumes "read_only L"
  shows "fst (evaluate_board L b) =
     (if fst (is_checkmate L b) then (if turn L b = WHITE then NegInf else PosInf)
      else if fst (is_stalemate L b) \<or> fst (is_insufficient_material L b) then Fin 0
      else Fin (material_balance L b))"
  using evaluate_board_read_only[OF assms, of b] by (simp add: stated_evaluation_def)

theorem evaluate_board_score_witness:
  "read_only (game_api tt_game) \<and> fst (evaluate_board (game_api tt_game) (''T2'', [])) = Fin 2
   \<and> fst (evaluate_board (game_api tt_game) (''AWX'', [])) = Fin 0
   \<and> fst (evaluate_board (game_api mated_game) (''M'', [])) = PosInf"
proof -
  have 1: "material_balance (game_api tt_game) (''T2'', []) = 2"
    by code_simp
  have 2: "fst (is_stalemate (game_api tt_game) (''AWX'', []))"
    by code_simp
  show ?thesis
    using evaluate_board_score[OF read_only_game_api, of tt_game "(''T2'', [])"]
      evaluate_board_score[OF read_only_game_api, of tt_game "(''AWX'', [])"]
      evaluate_board_score[OF read_only_game_api, of mated_game "(''M'', [])"] 1 2
    by (simp add: read_only_game_api) (simp add: game_api_def tt_game_def mated_game_def)
qed

subsection \<open>C4: the board after a search\<close>




subsection \<open>C5: the move orderer\<close>

text \<open>
  Claim C5, as the code has it. With a rules engine whose queries leave the board alone,
  \<open>order_moves\<close> leaves the board as it found it and returns all legal moves, each as
  often as the rules engine lists it, in descending order of the score \<open>score_move\<close>
  gives them. That score is \<open>heuristic\<close>: for a capture, ten times the value of the
  piece on the destination square (\<open>0\<close> if the square is empty) minus the value of
  the piece on the origin square, for other moves \<open>0\<close>; plus \<open>8\<close> for a promotion and
  plus \<open>5\<close> for a move that gives check.
\<close>

theorem order_moves_sorted:
  assumes "read_only L"
  shows "snd (order_moves L b) = b \<and>
    mset (fst (order_moves L b)) = mset (fst (legal_moves L b)) \<and>
    sorted_wrt (\<lambda>m m'. heuristic L b m' \<le> heuristic L b m) (fst (order_moves L b)) \<and>
    score_move L m b = (heuristic L b m, b)"
  by (simp add: order_moves_read_only[OF assms] score_move_read_only[OF assms]
      ordered_mset ordered_sorted)

theorem order_moves_sorted_witness:
  "fst (order_moves ep_api (ep_position, [])) = [quiet_move 4 12, ep_move] \<and>
   snd (order_moves ep_api (ep_position, [])) = (ep_position, []) \<and>
   score_move ep_api ep_move (ep_position, []) = (- 1, (ep_position, []))"
proof -
  have 1: "fst (order_moves ep_api (ep_position, [])) = [quiet_move 4 12, ep_move]"
    by code_simp
  have 2: "heuristic ep_api (ep_position, []) ep_move = - 1"
    by code_simp
  show ?thesis
    using order_moves_sorted[OF read_only_ep_api, of "(ep_position, [])" ep_move] 1 2
    by simp
qed

text \<open>
  The piece captured en passant does not stand on the destination square, which is
  empty: the code scores the capture \<open>10 * 0 - 1\<close>, where ten times the value of
  the captured pawn minus the value of the capturing pawn is \<open>9\<close>.
\<close>

theorem en_passant_capture_bonus:
  "ep_move \<in> set (fst (legal_moves ep_api (ep_position, []))) \<and>
   fst (is_capture ep_api ep_move (ep_position, [])) \<and>
   fst (score_move ep_api ep_move (ep_position, [])) = - 1 \<and>
   stated_heuristic ep_api (ep_position, []) ep_move = 9"
  by code_simp

subsection \<open>C6: the table is read first and written last\<close>

text \<open>
  Claim C6. With a rules engine whose queries leave the board alone: if the table holds
  the key (position encoding, depth, maximizing flag) of a node, \<open>minimax\<close> returns the
  stored value with a single frame, whatever the depth and whether or not the game is
  over, and leaves board and table as they were; and whenever \<open>minimax\<close> returns a
  value, by a table hit, at a leaf, after all moves or after a cut-off, the table it
  leaves holds that value under the node's key.
\<close>

theorem cache_first_and_last:
  assumes "read_only L"
  shows "(T (fst (fen L b), d, mx) = Some v \<longrightarrow> minimax L (Suc n) b d a be mx T = (Inr v, b, T)) \<and>
    (minimax L n b d a be mx T = (Inr w, b', T') \<longrightarrow> T' (fst (fen L b), d, mx) = Some w)"
  using minimax_hit[of T L b d mx v n a be] read_onlyD(9)[OF assms, of b]
    minimax_stores_result[of L n b d a be mx T w b' T']
  by simp

theorem cache_first_and_last_witness:
  "minimax (game_api tt_game) (Suc 0) (''AWX'', []) 0 NegInf PosInf True [(''AWX'', 0, True) \<mapsto> Fin 7]
     = (Inr (Fin 7), (''AWX'', []), [(''AWX'', 0, True) \<mapsto> Fin 7]) \<and>
   snd (snd (minimax (game_api tt_game) 2 (''T'', []) 1 NegInf PosInf True Map.empty)) (''T'', 1, True)
     = Some (Fin 2)"
proof -
  have 1: "fst (minimax (game_api tt_game) 2 (''T'', []) 1 NegInf PosInf True Map.empty) = Inr (Fin 2)"
    by code_simp
  have 2: "fst (fen (game_api tt_game) (''AWX'', [])) = ''AWX''"
    and 3: "fst (fen (game_api tt_game) (''T'', [])) = ''T''"
    by (simp_all add: game_api_def)
  from 1 have 4: "minimax (game_api tt_game) 2 (''T'', []) 1 NegInf PosInf True Map.empty =
    (Inr (Fin 2), fst (snd (minimax (game_api tt_game) 2 (''T'', []) 1 NegInf PosInf True Map.empty)),
     snd (snd (minimax (game_api tt_game) 2 (''T'', []) 1 NegInf PosInf True Map.empty)))"
    by (metis prod.collapse)
  show ?thesis
    using cache_first_and_last[OF read_only_game_api[of tt_game],
        where T = "[(''AWX'', 0, True) \<mapsto> Fin 7]" and b = "(''AWX'', [])"
          and d = 0 and mx = True and v = "Fin 7" and n = 0 and a = NegInf and be = PosInf]
      cache_first_and_last[OF read_only_game_api[of tt_game],
        where T = Map.empty and b = "(''T'', [])" and d = 1 and mx = True
          and n = 2 and a = NegInf and be = PosInf,
        THEN conjunct2, rule_format, OF 4]
    by (simp add: 2 3)
qed

subsection \<open>C7: the table only grows\<close>



subsection \<open>C8: the evaluator is pure\<close>

text \<open>
  Claim C8. With a rules engine whose queries leave the board alone, \<open>evaluate_board\<close>
  leaves the board as it found it, and evaluating a second time, on the board the first
  evaluation left, yields the same score.
\<close>

theorem evaluate_board_pure:
  assumes "read_only L"
  shows "snd (evaluate_board L b) = b \<and>
    fst (evaluate_board L (snd (evaluate_board L b))) = fst (evaluate_board L b)"
  by (simp add: evaluate_board_read_only[OF assms])

theorem evaluate_board_pure_witness:
  "snd (evaluate_board (game_api tt_game) (''T2'', [''T''])) = (''T2'', [''T'']) \<and>
   fst (evaluate_board (game_api tt_game) (snd (evaluate_board (game_api tt_game) (''T2'', [''T''])))) =
   fst (evaluate_board (game_api tt_game) (''T2'', [''T'']))"
  using evaluate_board_pure[OF read_only_game_api, of tt_game "(''T2'', [''T''])"] .

subsection \<open>C9: the first reply at depth 1\<close>

text \<open>
  Claim C9. Take a position with Black to move in which, as in the starting position
  after any first move of White, there is a legal move, no reply ends in checkmate,
  stalemate or insufficient material, the material is level, a reply that is not a
  capture leaves the material as it is, and replies with the same position encoding
  have the same material. With a rules engine whose queries leave the board alone and
  whose \<open>pop\<close> undoes \<open>push\<close>, and an empty transposition table, \<open>find_best_move\<close>
  at depth 1 returns one of the legal replies; the value \<open>best_val\<close> it ends with
  is the material balance of the position after that reply, and is \<open>0\<close> if the reply
  is not a capture. The instance that follows is the starting position after
  \<open>1. e4\<close> with Black's twenty replies.
\<close>


theorem first_reply_at_depth_one:
  assumes "read_only L" and "undo_push L"
    and "fst (legal_moves L b) \<noteq> []"
    and flags: "\<forall>m\<in>set (fst (legal_moves L b)).
        \<not> fst (is_checkmate L (push L m b)) \<and> \<not> fst (is_stalemate L (push L m b)) \<and>
        \<not> fst (is_insufficient_material L (push L m b))"
    and "\<forall>m\<in>set (fst (legal_moves L b)). \<forall>m'\<in>set (fst (legal_moves L b)).
        fst (fen L (push L m b)) = fst (fen L (push L m' b)) \<longrightarrow>
        material_balance L (push L m b) = material_balance L (push L m' b)"
    and level: "material_balance L b = 0"
    and kept: "\<forall>m\<in>set (fst (legal_moves L b)).
        \<not> fst (is_capture L m b) \<longrightarrow> material_balance L (push L m b) = material_balance L b"
  shows "\<exists>m v T'.
      find_best_move_loop L (Suc n) b 1 Map.empty = (Inr (Some m, v), b, T') \<and>
      find_best_move L (Suc n) b 1 Map.empty = (Inr (Some m), b, T') \<and>
      m \<in> set (fst (legal_moves L b)) \<and>
      v = Fin (material_balance L (push L m b)) \<and>
      (\<not> fst (is_capture L m b) \<longrightarrow> v = Fin 0)"
proof -
  from flags have "\<forall>m\<in>set (fst (legal_moves L b)).
      stated_evaluation L (push L m b) = Fin (material_balance L (push L m b))"
    by (simp add: stated_evaluation_def)
  from depth_one_reply[OF assms(1-3) this assms(5), of n] obtain m T'
    where loop: "find_best_move_loop L (Suc n) b 1 Map.empty
        = (Inr (Some m, Fin (material_balance L (push L m b))), b, T')"
      and m: "m \<in> set (fst (legal_moves L b))"
    by blast
  from loop have fbm: "find_best_move L (Suc n) b 1 Map.empty = (Inr (Some m), b, T')"
    by (simp add: find_best_move_def)
  from m level kept
  have zero: "\<not> fst (is_capture L m b) \<longrightarrow> Fin (material_balance L (push L m b)) = Fin 0"
    by simp
  show ?thesis
    by (intro exI[of _ m] exI[of _ "Fin (material_balance L (push L m b))"] exI[of _ T'] conjI
        loop fbm m refl zero)
qed

theorem first_reply_at_depth_one_witness:
  "\<exists>m T'. find_best_move_loop opening_api (Suc 0) (after_e4, []) 1 Map.empty
              = (Inr (Some m, Fin 0), (after_e4, []), T') \<and>
     find_best_move opening_api (Suc 0) (after_e4, []) 1 Map.empty = (Inr (Some m), (after_e4, []), T') \<and>
     m \<in> set replies"
proof -
  have legal: "fst (legal_moves opening_api (after_e4, [])) = replies"
    by (simp add: opening_api_def placement_api_def)
  have 1: "replies \<noteq> []"
    by (simp add: replies_def)
  have 2: "\<forall>m\<in>set replies.
        \<not> fst (is_checkmate opening_api (push opening_api m (after_e4, []))) \<and>
        \<not> fst (is_stalemate opening_api (push opening_api m (after_e4, []))) \<and>
        \<not> fst (is_insufficient_material opening_api (push opening_api m (after_e4, [])))"
    by (simp add: opening_api_def placement_api_def)
  have all0: "\<forall>m\<in>set replies. material_balance opening_api (push opening_api m (after_e4, [])) = 0"
    by code_simp
  have 4: "material_balance opening_api (after_e4, []) = 0"
    by code_simp
  have 6: "\<forall>m\<in>set replies. \<not> fst (is_capture opening_api m (after_e4, []))"
    by code_simp
  from all0 have 3: "\<forall>m\<in>set replies. \<forall>m'\<in>set replies.
        fst (fen opening_api (push opening_api m (after_e4, [])))
          = fst (fen opening_api (push opening_api m' (after_e4, []))) \<longrightarrow>
        material_balance opening_api (push opening_api m (after_e4, []))
          = material_balance opening_api (push opening_api m' (after_e4, []))"
    by simp
  from all0 4 have 5: "\<forall>m\<in>set replies. \<not> fst (is_capture opening_api m (after_e4, [])) \<longrightarrow>
        material_balance opening_api (push opening_api m (after_e4, []))
          = material_balance opening_api (after_e4, [])"
    by simp
  from first_reply_at_depth_one[OF read_only_opening_api undo_push_opening_api,
      where b = "(after_e4, [])" and n = 0, unfolded legal, OF 1 2 3 4 5]
  obtain m v T' where
    "find_best_move_loop opening_api (Suc 0) (after_e4, []) 1 Map.empty = (Inr (Some m, v), (after_e4, []), T')"
    "find_best_move opening_api (Suc 0) (after_e4, []) 1 Map.empty = (Inr (Some m), (after_e4, []), T')"
    "m \<in> set replies" "\<not> fst (is_capture opening_api m (after_e4, [])) \<longrightarrow> v = Fin 0"
    by blast
  with 6 show ?thesis
    by blast
qed

subsection \<open>C10: the search returns\<close>



end
